theory Spec2Isabelle
  imports Main "HOL-Library.Word"
begin

section \<open>JavaScript strings\<close>

text \<open>
  A JavaScript string is a sequence of 16-bit code units. The regular expressions of
  \<^verbatim>\<open>App.tsx\<close> carry no \<^verbatim>\<open>u\<close> flag, so they too work on code units.
  String literals of the source are written \<open>js ''...''\<close>.
\<close>

type_synonym jschar = "16 word"
type_synonym jsstring = "jschar list"

definition js :: "string \<Rightarrow> jsstring" where
  "js s = map of_char s"

definition LF :: jschar where
  "LF = 0x0A"

text \<open>
  ECMAScript \<^verbatim>\<open>LineTerminator\<close>: the code units that the regular expression atom
  \<^verbatim>\<open>.\<close> does not match.
\<close>

definition isLineTerminator :: "jschar \<Rightarrow> bool" where
  "isLineTerminator c = (c = 0x0A \<or> c = 0x0D \<or> c = 0x2028 \<or> c = 0x2029)"

text \<open>
  ECMAScript \<^verbatim>\<open>WhiteSpace\<close> and \<^verbatim>\<open>LineTerminator\<close>: what \<^verbatim>\<open>trim()\<close>
  strips and what the regular expression class \<^verbatim>\<open>\s\<close> matches.
\<close>

definition isWhiteSpace :: "jschar \<Rightarrow> bool" where
  "isWhiteSpace c =
     (c = 0x09 \<or> c = 0x0B \<or> c = 0x0C \<or> c = 0x20 \<or> c = 0xA0 \<or> c = 0x1680 \<or>
      (0x2000 \<le> c \<and> c \<le> 0x200A) \<or> c = 0x202F \<or> c = 0x205F \<or> c = 0x3000 \<or>
      c = 0xFEFF \<or> isLineTerminator c)"

text \<open>The regular expression class \<^verbatim>\<open>\d\<close>: the ASCII digits.\<close>

definition isDigit :: "jschar \<Rightarrow> bool" where
  "isDigit c = (0x30 \<le> c \<and> c \<le> 0x39)"

text \<open>\<^verbatim>\<open>String.prototype.trim\<close>.\<close>

definition trim :: "jsstring \<Rightarrow> jsstring" where
  "trim s = rev (dropWhile isWhiteSpace (rev (dropWhile isWhiteSpace s)))"

text \<open>\<^verbatim>\<open>String.prototype.startsWith\<close> and \<^verbatim>\<open>endsWith\<close>, with one argument.\<close>

definition startsWith :: "jsstring \<Rightarrow> jsstring \<Rightarrow> bool" where
  "startsWith p s = (take (length p) s = p)"

definition endsWith :: "jsstring \<Rightarrow> jsstring \<Rightarrow> bool" where
  "endsWith p s = (length p \<le> length s \<and> drop (length s - length p) s = p)"

text \<open>\<^verbatim>\<open>String.prototype.substring\<close> with one non-negative argument.\<close>

definition substring :: "nat \<Rightarrow> jsstring \<Rightarrow> jsstring" where
  "substring n s = drop (min n (length s)) s"

text \<open>
  \<^verbatim>\<open>String.prototype.slice(start, end)\<close>: a negative index counts from the end, both
  indices are clamped to the string, and the result is empty when the clamped start is
  not below the clamped end.
\<close>

definition slice_str :: "int \<Rightarrow> int \<Rightarrow> jsstring \<Rightarrow> jsstring" where
  "slice_str start end s =
     (let len = int (length s);
          from = (if start < 0 then max (len + start) 0 else min start len);
          to = (if end < 0 then max (len + end) 0 else min end len)
      in take (nat (max (to - from) 0)) (drop (nat from) s))"

text \<open>
  \<^verbatim>\<open>String.prototype.split\<close> with a one-character separator: the pieces between the
  occurrences of the separator, empty pieces kept; a string without the separator (the
  empty string too) gives one piece.
\<close>

fun split_on :: "jschar \<Rightarrow> jsstring \<Rightarrow> jsstring list" where
  "split_on sep [] = [[]]"
| "split_on sep (c # cs) =
     (if c = sep then [] # split_on sep cs
      else (case split_on sep cs of
              [] \<Rightarrow> [[c]]
            | piece # pieces \<Rightarrow> (c # piece) # pieces))"

section \<open>The regular expressions\<close>

text \<open>
  \<^verbatim>\<open>/(\*\*.*?\*\*)/g\<close>, matched at the start of a string. \<open>lazy_close\<close> is the
  backtracking of \<^verbatim>\<open>.*?\*\*\<close>: first try the closing \<^verbatim>\<open>**\<close> here, and only
  when that fails let \<^verbatim>\<open>.\<close> take one more code unit that is no line terminator.
  Both return the number of code units matched.
\<close>

fun lazy_close :: "jsstring \<Rightarrow> nat option" where
  "lazy_close [] = None"
| "lazy_close (c # cs) =
     (if startsWith (js ''**'') (c # cs) then Some 2
      else if isLineTerminator c then None
      else map_option Suc (lazy_close cs))"

definition match_bold :: "jsstring \<Rightarrow> nat option" where
  "match_bold s =
     (if startsWith (js ''**'') s then map_option (\<lambda>n. n + 2) (lazy_close (drop 2 s))
      else None)"

text \<open>
  \<^verbatim>\<open>text.split(/(\*\*.*?\*\*)/g)\<close>, after \<^verbatim>\<open>RegExp.prototype[Symbol.split]\<close>:
  \<open>gap\<close> is the text since the end of the last match, \<open>s\<close> the text from the
  position being tried. A match ends the gap; the gap and the captured match are both
  pushed, and the scan goes on behind the match. Without a match the position moves
  on by one code unit. At the end the last gap is pushed. The expression matches at
  least four code units, so no match is ever empty.
\<close>

function split_bold :: "jsstring \<Rightarrow> jsstring \<Rightarrow> jsstring list" where
  "split_bold gap s =
     (case match_bold s of
        Some n \<Rightarrow> gap # take n s # split_bold [] (drop n s)
      | None \<Rightarrow> (case s of
                   [] \<Rightarrow> [gap]
                 | c # cs \<Rightarrow> split_bold (gap @ [c]) cs))"
  by pat_completeness auto

lemma lazy_close_le: "lazy_close s = Some n \<Longrightarrow> 2 \<le> n \<and> n \<le> length s"
proof (induction s arbitrary: n)
  case Nil
  then show ?case by simp
next
  case (Cons c cs)
  show ?case
  proof (cases "startsWith (js ''**'') (c # cs)")
    case True
    with Cons.prems have "n = 2" by simp
    moreover from True have "2 \<le> length (c # cs)"
      by (cases cs) (simp_all add: startsWith_def js_def)
    ultimately show ?thesis by simp
  next
    case False
    with Cons.prems obtain m where "lazy_close cs = Some m" "n = Suc m"
      by (auto split: if_splits)
    with Cons.IH show ?thesis by fastforce
  qed
qed

lemma match_bold_le: "match_bold s = Some n \<Longrightarrow> 4 \<le> n \<and> n \<le> length s"
proof -
  assume m: "match_bold s = Some n"
  then obtain k where k: "lazy_close (drop 2 s) = Some k" "n = k + 2"
    by (auto simp: match_bold_def split: if_splits)
  from m have "startsWith (js ''**'') s"
    by (simp add: match_bold_def split: if_splits)
  then have "2 \<le> length s"
    by (cases s; cases "tl s") (simp_all add: startsWith_def js_def)
  with lazy_close_le [OF k(1)] k(2) show ?thesis by auto
qed

termination split_bold
proof (relation "measure (\<lambda>(gap, s). length s)")
  show "wf (measure (\<lambda>(gap, s). length s))" by simp
next
  fix gap s :: jsstring and n
  assume "match_bold s = Some n"
  then have "4 \<le> n" "n \<le> length s" by (auto dest: match_bold_le)
  then show "(([], drop n s), (gap, s)) \<in> measure (\<lambda>(gap, s). length s)" by simp
next
  fix gap s :: jsstring and c cs
  assume "s = c # cs"
  then show "((gap @ [c], cs), (gap, s)) \<in> measure (\<lambda>(gap, s). length s)" by simp
qed

declare split_bold.simps [simp del]

text \<open>
  The leftmost match in a string: the first position at which the expression matches,
  and the number of code units matched there. This is the match that
  \<^verbatim>\<open>split\<close> finds first when it scans a string from its start.
\<close>

fun find_bold :: "jsstring \<Rightarrow> (nat \<times> nat) option" where
  "find_bold [] = None"
| "find_bold (c # cs) =
     (case match_bold (c # cs) of
        Some n \<Rightarrow> Some (0, n)
      | None \<Rightarrow> map_option (\<lambda>(q, n). (Suc q, n)) (find_bold cs))"


text \<open>\<^verbatim>\<open>/^\d+\./.test(s)\<close>: one or more digits at the start, then a period.\<close>

definition test_ordered :: "jsstring \<Rightarrow> bool" where
  "test_ordered s =
     (takeWhile isDigit s \<noteq> [] \<and> startsWith (js ''.'') (dropWhile isDigit s))"

text \<open>
  \<^verbatim>\<open>s.replace(/^\d+\.\s*/, '')\<close>: a match at the start (the digits, the period and
  all white space behind it) is removed; a string without a match is returned as it is.
\<close>

definition replace_ordered :: "jsstring \<Rightarrow> jsstring" where
  "replace_ordered s =
     (if test_ordered s then dropWhile isWhiteSpace (drop 1 (dropWhile isDigit s)) else s)"

section \<open>The rendered nodes\<close>

text \<open>
  The children of an element are strings and \<^verbatim>\<open><strong>\<close> elements: the plain and
  the emphasised spans. \<^verbatim>\<open>renderInline\<close> returns an array of them; where the source
  gives an element one string as its child (\<^verbatim>\<open>{line.substring(4)}\<close>, \<^verbatim>\<open>{h}\<close>),
  the children are that one plain span. A block is one of the six elements that
  \<^verbatim>\<open>MarkdownRenderer\<close> pushes. The \<^verbatim>\<open>className\<close> attributes and the bullet of a
  heading are constants. The \<^verbatim>\<open>key\<close> of a span, a cell, a row or an item is its
  index, and the \<^verbatim>\<open>key\<close> of a block is the number of blocks pushed before it, so
  each is the position in the list that holds it; the number shown in an ordered item
  is its index plus one.
\<close>

datatype inline = Text jsstring | Strong jsstring

datatype node =
    H3 "inline list"
  | H2 "inline list"
  | Table "inline list list" "inline list list list"
  | UL "inline list list"
  | OL "inline list list"
  | P "inline list"

text \<open>The \<^verbatim>\<open><h3>\<close> elements among the nodes.\<close>

fun is_H3 :: "node \<Rightarrow> bool" where
  "is_H3 (H3 children) = True"
| "is_H3 other = False"

section \<open>renderInline\<close>

definition renderInline :: "jsstring \<Rightarrow> inline list" where
  "renderInline text =
     (let parts = split_bold [] text
      in map (\<lambda>part. if startsWith (js ''**'') part \<and> endsWith (js ''**'') part
                       then Strong (slice_str 2 (- 2) part)
                       else Text part) parts)"

section \<open>MarkdownRenderer\<close>

text \<open>
  Reading an array out of range gives \<^verbatim>\<open>undefined\<close>, and calling \<^verbatim>\<open>trim\<close> or
  \<^verbatim>\<open>split\<close> on it throws a \<^verbatim>\<open>TypeError\<close>: the only way the source can fail.
\<close>

datatype error = TypeError

definition at :: "'a list \<Rightarrow> nat \<Rightarrow> error + 'a" where
  "at xs i = (if i < length xs then Inr (xs ! i) else Inl TypeError)"

text \<open>
  The three inner \<^verbatim>\<open>while\<close> loops have one shape: while the index is inside
  \<open>lines\<close> and the trimmed line passes the test, push something made of the trimmed
  line and move on. \<open>while_run\<close> returns the index and the array at the exit.
\<close>

function while_run ::
  "(jsstring \<Rightarrow> bool) \<Rightarrow> (jsstring \<Rightarrow> jsstring) \<Rightarrow> jsstring list \<Rightarrow> nat \<Rightarrow> jsstring list
     \<Rightarrow> error + nat \<times> jsstring list" where
  "while_run test item lines i acc =
     (if i < length lines then
        (case at lines i of
           Inl e \<Rightarrow> Inl e
         | Inr l \<Rightarrow>
             if test (trim l) then while_run test item lines (i + 1) (acc @ [item (trim l)])
             else Inr (i, acc))
      else Inr (i, acc))"
  by pat_completeness auto
termination
  by (relation "measure (\<lambda>(test, item, lines, i, acc). length lines - i)") auto

declare while_run.simps [simp del]

definition is_table_row :: "jsstring \<Rightarrow> bool" where
  "is_table_row s = startsWith (js ''|'') s"

definition is_unordered :: "jsstring \<Rightarrow> bool" where
  "is_unordered s = (startsWith (js ''* '') s \<or> startsWith (js ''- '') s)"

text \<open>\<^verbatim>\<open>r.split('|').filter(c => c.trim() !== '').map(c => c.trim())\<close>\<close>

definition cells :: "jsstring \<Rightarrow> jsstring list" where
  "cells r = map trim (filter (\<lambda>c. trim c \<noteq> []) (split_on (of_char CHR ''|'') r))"

text \<open>
  The table pushed for \<open>tableRows\<close>: each header cell is the one child of its
  \<^verbatim>\<open><th>\<close> as it is, the cells of \<^verbatim>\<open>tableRows.slice(2)\<close> go through
  \<open>renderInline\<close>.
\<close>

definition table_node :: "jsstring list \<Rightarrow> error + node" where
  "table_node tableRows =
     (case at tableRows 0 of
        Inl e \<Rightarrow> Inl e
      | Inr r0 \<Rightarrow>
          (let headers = cells r0;
               rows = map cells (drop 2 tableRows)
           in Inr (Table (map (\<lambda>h. [Text h]) headers) (map (map renderInline) rows))))"

text \<open>
  The number of consecutive lines from index \<open>i\<close> on whose trimmed form passes
  \<open>test\<close>: the length of the run that starts at \<open>i\<close>.
\<close>

definition run_length :: "(jsstring \<Rightarrow> bool) \<Rightarrow> jsstring list \<Rightarrow> nat \<Rightarrow> nat" where
  "run_length test lines i = length (takeWhile (\<lambda>l. test (trim l)) (drop i lines))"

text \<open>
  An inner loop stops behind the run: it has moved the index by the length of the run
  and pushed one item for each of its lines.
\<close>

lemma run_length_step:
  "i < length lines \<Longrightarrow> test (trim (lines ! i))
     \<Longrightarrow> run_length test lines i = Suc (run_length test lines (Suc i))"
  by (simp add: run_length_def Cons_nth_drop_Suc [symmetric])

lemma run_length_stop:
  "i < length lines \<Longrightarrow> \<not> test (trim (lines ! i)) \<Longrightarrow> run_length test lines i = 0"
  by (simp add: run_length_def Cons_nth_drop_Suc [symmetric])

lemma run_length_end: "length lines \<le> i \<Longrightarrow> run_length test lines i = 0"
  by (simp add: run_length_def)

lemma run_length_le: "i + run_length test lines i \<le> max i (length lines)"
proof -
  have "run_length test lines i \<le> length (drop i lines)"
    unfolding run_length_def by (rule length_takeWhile_le)
  then show ?thesis by simp
qed

lemma run_length_next:
  assumes "i + run_length test lines i < length lines"
  shows "\<not> test (trim (lines ! (i + run_length test lines i)))"
proof -
  let ?P = "\<lambda>l. test (trim l)"
  let ?n = "length (takeWhile ?P (drop i lines))"
  from assms have "?n < length (drop i lines)" by (simp add: run_length_def)
  then have "\<not> ?P (drop i lines ! ?n)" by (rule nth_length_takeWhile)
  moreover from assms have "drop i lines ! ?n = lines ! (i + ?n)"
    by (simp add: run_length_def)
  ultimately show ?thesis by (simp add: run_length_def)
qed

lemma while_run_eq:
  "while_run test item lines i acc =
     Inr (i + run_length test lines i,
          acc @ map (\<lambda>l. item (trim l)) (take (run_length test lines i) (drop i lines)))"
proof (induction test item lines i acc rule: while_run.induct)
  case (1 test item lines i acc)
  show ?case
  proof (cases "i < length lines")
    case False
    then show ?thesis
      by (subst while_run.simps) (simp add: run_length_end)
  next
    case in_range: True
    show ?thesis
    proof (cases "test (trim (lines ! i))")
      case False
      with in_range show ?thesis
        by (subst while_run.simps) (simp add: at_def run_length_stop)
    next
      case True
      have "while_run test item lines i acc =
              while_run test item lines (i + 1) (acc @ [item (trim (lines ! i))])"
        using in_range True by (subst while_run.simps) (simp add: at_def)
      also have "\<dots> = Inr (i + 1 + run_length test lines (i + 1),
          (acc @ [item (trim (lines ! i))]) @
          map (\<lambda>l. item (trim l)) (take (run_length test lines (i + 1)) (drop (i + 1) lines)))"
        using in_range True by (intro "1.IH") (simp_all add: at_def)
      also have "\<dots> = Inr (i + run_length test lines i,
          acc @ map (\<lambda>l. item (trim l)) (take (run_length test lines i) (drop i lines)))"
        using in_range True
        by (simp add: run_length_step Cons_nth_drop_Suc [symmetric])
      finally show ?thesis .
    qed
  qed
qed

text \<open>
  The \<^verbatim>\<open>for\<close> loop of \<^verbatim>\<open>MarkdownRenderer\<close>, from index \<open>i\<close> with the nodes pushed
  so far. Each branch ends with the \<^verbatim>\<open>i++\<close> of the loop header; the three grouping
  branches first step back by one (\<^verbatim>\<open>i--\<close>) from the index \<open>j\<close> at which their
  inner loop stopped.
\<close>

function for_loop :: "jsstring list \<Rightarrow> nat \<Rightarrow> node list \<Rightarrow> error + node list" where
  "for_loop lines i nodes =
     (if i < length lines then
        (case at lines i of
           Inl e \<Rightarrow> Inl e
         | Inr l \<Rightarrow>
            (let line = trim l in
             if startsWith (js ''### '') line then
               for_loop lines (i + 1) (nodes @ [H3 [Text (substring 4 line)]])
             else if startsWith (js ''## '') line then
               for_loop lines (i + 1) (nodes @ [H2 [Text (substring 3 line)]])
             else if startsWith (js ''|'') line then
               (case while_run is_table_row (\<lambda>l. l) lines i [] of
                  Inl e \<Rightarrow> Inl e
                | Inr (j, tableRows) \<Rightarrow>
                    if 2 \<le> length tableRows then
                      (case table_node tableRows of
                         Inl e \<Rightarrow> Inl e
                       | Inr table \<Rightarrow> for_loop lines (nat (int j - 1 + 1)) (nodes @ [table]))
                    else for_loop lines (nat (int j - 1 + 1)) nodes)
             else if startsWith (js ''* '') line \<or> startsWith (js ''- '') line then
               (case while_run is_unordered (substring 2) lines i [] of
                  Inl e \<Rightarrow> Inl e
                | Inr (j, listItems) \<Rightarrow>
                    for_loop lines (nat (int j - 1 + 1)) (nodes @ [UL (map renderInline listItems)]))
             else if test_ordered line then
               (case while_run test_ordered replace_ordered lines i [] of
                  Inl e \<Rightarrow> Inl e
                | Inr (j, listItems) \<Rightarrow>
                    for_loop lines (nat (int j - 1 + 1)) (nodes @ [OL (map renderInline listItems)]))
             else if 0 < length line then
               for_loop lines (i + 1) (nodes @ [P (renderInline line)])
             else for_loop lines (i + 1) nodes))
      else Inr nodes)"
  by pat_completeness auto
termination
proof (relation "measure (\<lambda>(lines, i, nodes). length lines - i)")
  show "wf (measure (\<lambda>(lines, i, nodes). length lines - i))" by simp
qed (auto simp: at_def while_run_eq run_length_step
       is_table_row_def is_unordered_def)

declare for_loop.simps [simp del]

text \<open>
  \<^verbatim>\<open>MarkdownRenderer\<close>: the lines of \<^verbatim>\<open>content.split('\n')\<close>, the loop from
  index 0 with no nodes, and the fragment of the nodes pushed.
\<close>

definition MarkdownRenderer :: "jsstring \<Rightarrow> error + node list" where
  "MarkdownRenderer content = for_loop (split_on LF content) 0 []"

section \<open>The loop, step by step\<close>

text \<open>
  The tests of the loop are tried in the order of the source, but a line that starts a
  table, a list item or an ordered item passes none of the tests before its own.
\<close>

lemma js_simps:
  "js ''### '' = [0x23, 0x23, 0x23, 0x20]"
  "js ''## '' = [0x23, 0x23, 0x20]"
  "js ''|'' = [0x7C]"
  "js ''* '' = [0x2A, 0x20]"
  "js ''- '' = [0x2D, 0x20]"
  "js ''.'' = [0x2E]"
  "js ''**'' = [0x2A, 0x2A]"
  by (simp_all add: js_def)

lemma table_row_not_heading:
  "startsWith (js ''|'') s \<Longrightarrow> \<not> startsWith (js ''### '') s \<and> \<not> startsWith (js ''## '') s"
  by (cases s) (auto simp: startsWith_def js_simps)

lemma unordered_not_earlier:
  "is_unordered s \<Longrightarrow>
     \<not> startsWith (js ''### '') s \<and> \<not> startsWith (js ''## '') s \<and> \<not> startsWith (js ''|'') s"
  by (cases s) (auto simp: is_unordered_def startsWith_def js_simps)

lemma ordered_not_earlier:
  "test_ordered s \<Longrightarrow>
     \<not> startsWith (js ''### '') s \<and> \<not> startsWith (js ''## '') s \<and> \<not> startsWith (js ''|'') s
     \<and> \<not> is_unordered s"
  by (cases s) (auto simp: test_ordered_def is_unordered_def startsWith_def js_simps isDigit_def split: if_splits)

lemma for_loop_end: "length lines \<le> i \<Longrightarrow> for_loop lines i nodes = Inr nodes"
  by (subst for_loop.simps) simp

lemma for_loop_h3:
  "i < length lines \<Longrightarrow> startsWith (js ''### '') (trim (lines ! i)) \<Longrightarrow>
   for_loop lines i nodes = for_loop lines (i + 1) (nodes @ [H3 [Text (substring 4 (trim (lines ! i)))]])"
  by (subst for_loop.simps) (simp add: at_def)

lemma for_loop_h2:
  "i < length lines \<Longrightarrow> \<not> startsWith (js ''### '') (trim (lines ! i)) \<Longrightarrow>
   startsWith (js ''## '') (trim (lines ! i)) \<Longrightarrow>
   for_loop lines i nodes = for_loop lines (i + 1) (nodes @ [H2 [Text (substring 3 (trim (lines ! i)))]])"
  by (subst for_loop.simps) (simp add: at_def)

lemma run_length_bound: "i < length lines \<Longrightarrow> i + run_length test lines i \<le> length lines"
  using run_length_le [of i test lines] by simp

lemma for_loop_table:
  assumes "i < length lines" and "is_table_row (trim (lines ! i))"
  shows "for_loop lines i nodes =
     for_loop lines (i + run_length is_table_row lines i)
       (if 2 \<le> run_length is_table_row lines i
        then nodes @ [Table (map (\<lambda>h. [Text h]) (cells (trim (lines ! i))))
                        (map (\<lambda>l. map renderInline (cells (trim l)))
                           (take (run_length is_table_row lines i - 2) (drop (i + 2) lines)))]
        else nodes)"
proof -
  let ?n = "run_length is_table_row lines i"
  let ?rows = "map trim (take ?n (drop i lines))"
  from assms have pipe: "startsWith (js ''|'') (trim (lines ! i))"
    by (simp add: is_table_row_def)
  from assms have n: "0 < ?n" by (simp add: run_length_step)
  from assms run_length_bound [of i lines is_table_row] have len: "length ?rows = ?n" by simp
  from assms n have r0: "at ?rows 0 = Inr (trim (lines ! i))"
    by (simp add: at_def len del: length_map length_take)
  have rest: "drop 2 ?rows = map trim (take (?n - 2) (drop (i + 2) lines))"
    by (simp add: drop_map drop_take add.commute)
  have w: "while_run is_table_row (\<lambda>l. l) lines i [] = Inr (i + ?n, ?rows)"
    by (simp add: while_run_eq)
  have t: "table_node ?rows =
      Inr (Table (map (\<lambda>h. [Text h]) (cells (trim (lines ! i))))
             (map (\<lambda>l. map renderInline (cells (trim l))) (take (?n - 2) (drop (i + 2) lines))))"
    unfolding table_node_def r0 rest by (simp add: comp_def)
  have idx: "nat (int (i + ?n) - 1 + 1) = i + ?n" by simp
  have "for_loop lines i nodes =
      (if 2 \<le> length ?rows then
         (case table_node ?rows of Inl e \<Rightarrow> Inl e
          | Inr table \<Rightarrow> for_loop lines (nat (int (i + ?n) - 1 + 1)) (nodes @ [table]))
       else for_loop lines (nat (int (i + ?n) - 1 + 1)) nodes)"
    using assms(1) pipe table_row_not_heading [OF pipe]
    by (subst for_loop.simps) (simp add: at_def w del: length_map length_take)
  then show ?thesis
    unfolding len t idx by simp
qed

lemma for_loop_unordered:
  assumes "i < length lines" and "is_unordered (trim (lines ! i))"
  shows "for_loop lines i nodes =
     for_loop lines (i + run_length is_unordered lines i)
       (nodes @ [UL (map (\<lambda>l. renderInline (substring 2 (trim l)))
                       (take (run_length is_unordered lines i) (drop i lines)))])"
proof -
  let ?n = "run_length is_unordered lines i"
  have w: "while_run is_unordered (substring 2) lines i [] =
      Inr (i + ?n, map (\<lambda>l. substring 2 (trim l)) (take ?n (drop i lines)))"
    by (simp add: while_run_eq)
  have idx: "nat (int (i + ?n) - 1 + 1) = i + ?n" by simp
  from assms(2) have u: "startsWith (js ''* '') (trim (lines ! i)) \<or> startsWith (js ''- '') (trim (lines ! i))"
    by (simp add: is_unordered_def)
  have "for_loop lines i nodes =
      for_loop lines (nat (int (i + ?n) - 1 + 1))
        (nodes @ [UL (map renderInline (map (\<lambda>l. substring 2 (trim l)) (take ?n (drop i lines))))])"
    using assms(1) u unordered_not_earlier [OF assms(2)]
    by (subst for_loop.simps) (simp add: at_def w nat_int_add del: map_map)
  then show ?thesis
    unfolding idx by (simp add: comp_def)
qed

lemma for_loop_ordered:
  assumes "i < length lines" and "test_ordered (trim (lines ! i))"
  shows "for_loop lines i nodes =
     for_loop lines (i + run_length test_ordered lines i)
       (nodes @ [OL (map (\<lambda>l. renderInline (replace_ordered (trim l)))
                       (take (run_length test_ordered lines i) (drop i lines)))])"
proof -
  let ?n = "run_length test_ordered lines i"
  have w: "while_run test_ordered replace_ordered lines i [] =
      Inr (i + ?n, map (\<lambda>l. replace_ordered (trim l)) (take ?n (drop i lines)))"
    by (simp add: while_run_eq)
  have idx: "nat (int (i + ?n) - 1 + 1) = i + ?n" by simp
  from ordered_not_earlier [OF assms(2)]
  have no: "\<not> startsWith (js ''### '') (trim (lines ! i))" "\<not> startsWith (js ''## '') (trim (lines ! i))"
    "\<not> startsWith (js ''|'') (trim (lines ! i))"
    "\<not> startsWith (js ''* '') (trim (lines ! i))" "\<not> startsWith (js ''- '') (trim (lines ! i))"
    by (simp_all add: is_unordered_def)
  have "for_loop lines i nodes =
      for_loop lines (nat (int (i + ?n) - 1 + 1))
        (nodes @ [OL (map renderInline (map (\<lambda>l. replace_ordered (trim l)) (take ?n (drop i lines))))])"
    using assms no
    by (subst for_loop.simps) (simp add: at_def w nat_int_add del: map_map)
  then show ?thesis
    unfolding idx by (simp add: comp_def)
qed

lemma for_loop_paragraph:
  assumes "i < length lines" and "\<not> startsWith (js ''### '') (trim (lines ! i))"
    and "\<not> startsWith (js ''## '') (trim (lines ! i))" and "\<not> is_table_row (trim (lines ! i))"
    and "\<not> is_unordered (trim (lines ! i))" and "\<not> test_ordered (trim (lines ! i))"
  shows "for_loop lines i nodes =
     for_loop lines (i + 1)
       (if trim (lines ! i) \<noteq> [] then nodes @ [P (renderInline (trim (lines ! i)))] else nodes)"
  using assms
  by (subst for_loop.simps) (simp add: at_def is_table_row_def is_unordered_def)

lemma for_loop_total: "\<exists>doc. for_loop lines i nodes = Inr doc"
proof (induction "length lines - i" arbitrary: i nodes rule: less_induct)
  case less
  show ?case
  proof (cases "i < length lines")
    case False
    then show ?thesis by (simp add: for_loop_end)
  next
    case True
    let ?line = "trim (lines ! i)"
    have next_line: "\<exists>doc. for_loop lines (i + 1) nodes' = Inr doc" for nodes'
      using True by (intro less) simp
    have behind: "\<exists>doc. for_loop lines (i + run_length test lines i) nodes' = Inr doc"
      if "test ?line" for test nodes'
      using True that by (intro less) (simp add: run_length_step)
    consider "startsWith (js ''### '') ?line"
      | "\<not> startsWith (js ''### '') ?line" "startsWith (js ''## '') ?line"
      | "is_table_row ?line" | "is_unordered ?line" | "test_ordered ?line"
      | "\<not> startsWith (js ''### '') ?line" "\<not> startsWith (js ''## '') ?line"
        "\<not> is_table_row ?line" "\<not> is_unordered ?line" "\<not> test_ordered ?line"
      by blast
    then show ?thesis
    proof cases
      case 1
      from next_line show ?thesis by (simp only: for_loop_h3 [OF True 1])
    next
      case 2
      from next_line show ?thesis by (simp only: for_loop_h2 [OF True 2])
    next
      case 3
      from behind [of is_table_row, OF 3] show ?thesis by (simp only: for_loop_table [OF True 3])
    next
      case 4
      from behind [of is_unordered, OF 4] show ?thesis by (simp only: for_loop_unordered [OF True 4])
    next
      case 5
      from behind [of test_ordered, OF 5] show ?thesis by (simp only: for_loop_ordered [OF True 5])
    next
      case 6
      from next_line show ?thesis by (simp only: for_loop_paragraph [OF True 6])
    qed
  qed
qed

section \<open>The split of renderInline, match by match\<close>

lemma match_bold_Nil: "match_bold [] = None"
  by (simp add: match_bold_def startsWith_def js_simps)

lemma split_bold_find:
  "split_bold gap s =
     (case find_bold s of
        None \<Rightarrow> [gap @ s]
      | Some (q, n) \<Rightarrow> (gap @ take q s) # take n (drop q s) # split_bold [] (drop (q + n) s))"
proof (induction s arbitrary: gap)
  case Nil
  show ?case by (subst split_bold.simps) (simp add: match_bold_Nil)
next
  case (Cons c cs)
  show ?case
  proof (cases "match_bold (c # cs)")
    case (Some n)
    then show ?thesis by (subst split_bold.simps) simp
  next
    case None
    then have "split_bold gap (c # cs) = split_bold (gap @ [c]) cs"
      by (subst split_bold.simps) simp
    with None Cons.IH [of "gap @ [c]"] show ?thesis
      by (simp split: option.splits)
  qed
qed

lemma startsWith_stars: "startsWith (js ''**'') s \<longleftrightarrow> (\<exists>r. s = 0x2A # 0x2A # r)"
  by (cases s; cases "tl s") (auto simp: startsWith_def js_simps)

lemma startsWith_stars_take: "startsWith (js ''**'') s \<longleftrightarrow> take 2 s = js ''**''"
  by (simp add: startsWith_def js_simps numeral_2_eq_2)

lemma endsWith_stars_drop:
  "endsWith (js ''**'') s \<longleftrightarrow> 2 \<le> length s \<and> drop (length s - 2) s = js ''**''"
  by (simp add: endsWith_def js_simps numeral_2_eq_2)

lemma lazy_close_end:
  "lazy_close s = Some k \<Longrightarrow> startsWith (js ''**'') (drop (k - 2) s)"
proof (induction s arbitrary: k)
  case Nil
  then show ?case by simp
next
  case (Cons c cs)
  show ?case
  proof (cases "startsWith (js ''**'') (c # cs)")
    case True
    with Cons.prems show ?thesis by simp
  next
    case False
    with Cons.prems obtain m where m: "lazy_close cs = Some m" "k = Suc m"
      by (auto split: if_splits)
    from lazy_close_le [OF m(1)] have "2 \<le> m" by simp
    then have "Suc m - 2 = Suc (m - 2)" by simp
    with Cons.IH [OF m(1)] m(2) show ?thesis by simp
  qed
qed

lemma match_bold_shape:
  assumes "match_bold s = Some n"
  shows "startsWith (js ''**'') (take n s)" and "endsWith (js ''**'') (take n s)"
proof -
  from assms obtain k where k: "lazy_close (drop 2 s) = Some k" "n = k + 2"
    and st: "startsWith (js ''**'') s"
    by (auto simp: match_bold_def split: if_splits)
  from match_bold_le [OF assms] have n: "4 \<le> n" "n \<le> length s" by simp_all
  from st n show "startsWith (js ''**'') (take n s)"
    by (simp add: startsWith_def js_simps min_def)
  from lazy_close_le [OF k(1)] have "k - 2 + 2 = k" by arith
  then have "drop (k - 2) (drop 2 s) = drop (n - 2) s"
    unfolding drop_drop k(2) by simp
  with lazy_close_end [OF k(1)] have "startsWith (js ''**'') (drop (n - 2) s)"
    by simp
  then have "take 2 (drop (n - 2) s) = js ''**''"
    by (simp only: startsWith_stars_take)
  moreover have "drop (n - 2) (take n s) = take 2 (drop (n - 2) s)"
    using n by (simp add: drop_take)
  ultimately show "endsWith (js ''**'') (take n s)"
    using n by (simp add: endsWith_stars_drop)
qed


lemma find_bold_first:
  "find_bold s = Some (q, n) \<Longrightarrow>
     match_bold (drop q s) = Some n \<and> (\<forall>k<q. match_bold (drop k s) = None)"
proof (induction s arbitrary: q)
  case Nil
  then show ?case by simp
next
  case (Cons c cs)
  show ?case
  proof (cases "match_bold (c # cs)")
    case (Some m)
    with Cons.prems show ?thesis by simp
  next
    case None
    with Cons.prems obtain q' where q': "find_bold cs = Some (q', n)" "q = Suc q'"
      by auto
    from Cons.IH [OF q'(1)] None q'(2) show ?thesis
      by (auto simp: less_Suc_eq_0_disj)
  qed
qed

lemma gap_not_closed:
  assumes "find_bold s = Some (q, n)"
  shows "\<not> endsWith (js ''**'') (take q s)"
proof
  assume e: "endsWith (js ''**'') (take q s)"
  from find_bold_first [OF assms]
  have m: "match_bold (drop q s) = Some n" and first: "\<forall>k<q. match_bold (drop k s) = None"
    by simp_all
  from match_bold_le [OF m] have len: "q + 4 \<le> length s" by (simp, arith)
  from e len have q: "2 \<le> q" and last2: "drop (q - 2) (take q s) = js ''**''"
    by (simp_all add: endsWith_stars_drop min_def)
  from m have open_q: "startsWith (js ''**'') (drop q s)"
    by (simp add: match_bold_def split: if_splits)
  from q have "drop (q - 2) (take q s) = take 2 (drop (q - 2) s)"
    by (simp add: drop_take)
  with last2 have open_before: "startsWith (js ''**'') (drop (q - 2) s)"
    by (simp only: startsWith_stars_take)
  from q have "2 + (q - 2) = q" by arith
  then have "drop 2 (drop (q - 2) s) = drop q s" unfolding drop_drop by simp
  with open_q have "lazy_close (drop 2 (drop (q - 2) s)) = Some 2"
    by (cases "drop q s") (simp_all add: startsWith_def js_simps)
  with open_before have "match_bold (drop (q - 2) s) = Some 4"
    by (simp add: match_bold_def)
  moreover from q first have "match_bold (drop (q - 2) s) = None" by simp
  ultimately show False by simp
qed

lemma slice_inner: "4 \<le> length part \<Longrightarrow> slice_str 2 (- 2) part = take (length part - 4) (drop 2 part)"
  by (simp add: slice_str_def Let_def nat_diff_distrib')

lemma renderInline_match:
  assumes "find_bold text = Some (q, n)"
  shows "renderInline text =
     Text (take q text) # Strong (take (n - 4) (drop (q + 2) text)) # renderInline (drop (q + n) text)"
proof -
  from find_bold_first [OF assms] have m: "match_bold (drop q text) = Some n" by simp
  from match_bold_le [OF m] have n: "4 \<le> n" "n \<le> length (drop q text)" by simp_all
  let ?part = "take n (drop q text)"
  from n have len: "length ?part = n" by simp
  have "slice_str 2 (- 2) ?part = take (length ?part - 4) (drop 2 ?part)"
    using n len by (intro slice_inner) simp
  also have "\<dots> = take (n - 4) (drop (q + 2) text)"
    unfolding len using n by (simp add: drop_take add.commute)
  finally have inner: "slice_str 2 (- 2) ?part = take (n - 4) (drop (q + 2) text)" .
  have "split_bold [] text = take q text # ?part # split_bold [] (drop (q + n) text)"
    using assms by (subst split_bold_find) simp
  then show ?thesis
    using gap_not_closed [OF assms] match_bold_shape [OF m] inner
    by (simp add: renderInline_def Let_def)
qed

lemma renderInline_no_match:
  assumes "find_bold text = None"
  shows "renderInline text =
     [if startsWith (js ''**'') text \<and> endsWith (js ''**'') text
      then Strong (slice_str 2 (- 2) text) else Text text]"
  using assms by (simp add: renderInline_def Let_def split_bold_find [of "[]" "text"])

section \<open>Runs of lines\<close>

text \<open>
  Every line of a run passes its test, the second line of a run of two or more too; a
  run holds no \<^verbatim>\<open>###\<close> line; and the length of a run depends on its lines only
  through their tests.
\<close>

lemma run_lines_pass:
  "l \<in> set (take (run_length test lines i) (drop i lines)) \<Longrightarrow> test (trim l)"
  unfolding run_length_def takeWhile_eq_take [symmetric] by (auto dest: set_takeWhileD)

lemma drop_run_split:
  "drop i lines = take n (drop i lines) @ drop (i + n) lines"
proof -
  have "drop (i + n) lines = drop n (drop i lines)" by (simp add: add.commute)
  then show ?thesis by (simp only: append_take_drop_id)
qed

lemma run_no_heading:
  assumes "\<And>s. test s \<Longrightarrow> \<not> startsWith (js ''### '') s"
  shows "filter (\<lambda>l. startsWith (js ''### '') (trim l)) (drop i lines) =
     filter (\<lambda>l. startsWith (js ''### '') (trim l)) (drop (i + run_length test lines i) lines)"
proof -
  let ?n = "run_length test lines i"
  have "filter (\<lambda>l. startsWith (js ''### '') (trim l)) (take ?n (drop i lines)) = []"
    using assms by (auto simp: filter_empty_conv dest: run_lines_pass)
  then show ?thesis
    by (subst drop_run_split [of i lines ?n]) (simp del: drop_drop)
qed



text \<open>
  The \<^verbatim>\<open><h3>\<close> nodes of the result are made of the \<^verbatim>\<open>###\<close> lines from the
  index on, one for each and in their order.
\<close>

lemma for_loop_h3_nodes:
  "for_loop lines i nodes = Inr doc \<Longrightarrow>
   filter is_H3 doc =
     filter is_H3 nodes @
     map (\<lambda>l. H3 [Text (substring 4 (trim l))])
       (filter (\<lambda>l. startsWith (js ''### '') (trim l)) (drop i lines))"
proof (induction "length lines - i" arbitrary: i nodes rule: less_induct)
  case less
  let ?h3 = "\<lambda>l. startsWith (js ''### '') (trim l)"
  let ?mk = "\<lambda>l. H3 [Text (substring 4 (trim l))]"
  show ?case
  proof (cases "i < length lines")
    case False
    with less.prems show ?thesis by (simp add: for_loop_end)
  next
    case True
    let ?line = "trim (lines ! i)"
    have here: "drop i lines = lines ! i # drop (i + 1) lines"
      using True by (simp add: Cons_nth_drop_Suc)
    have next_line: "filter is_H3 doc =
        filter is_H3 nodes' @ map ?mk (filter ?h3 (drop (i + 1) lines))"
      if "for_loop lines (i + 1) nodes' = Inr doc" for nodes'
      using True that by (intro less.hyps) simp_all
    have behind: "filter is_H3 doc =
        filter is_H3 nodes' @ map ?mk (filter ?h3 (drop (i + run_length test lines i) lines))"
      if "test ?line" "for_loop lines (i + run_length test lines i) nodes' = Inr doc" for test nodes'
      using True that by (intro less.hyps) (simp_all add: run_length_step)
    consider "startsWith (js ''### '') ?line"
      | "\<not> startsWith (js ''### '') ?line" "startsWith (js ''## '') ?line"
      | "is_table_row ?line" | "is_unordered ?line" | "test_ordered ?line"
      | "\<not> startsWith (js ''### '') ?line" "\<not> startsWith (js ''## '') ?line"
        "\<not> is_table_row ?line" "\<not> is_unordered ?line" "\<not> test_ordered ?line"
      by blast
    then show ?thesis
    proof cases
      case 1
      from less.prems have "for_loop lines (i + 1) (nodes @ [H3 [Text (substring 4 ?line)]]) = Inr doc"
        by (simp only: for_loop_h3 [OF True 1])
      from next_line [OF this] 1 show ?thesis
        by (subst here) simp
    next
      case 2
      from less.prems have "for_loop lines (i + 1) (nodes @ [H2 [Text (substring 3 ?line)]]) = Inr doc"
        by (simp only: for_loop_h2 [OF True 2])
      from next_line [OF this] 2 show ?thesis
        by (subst here) simp
    next
      case 3
      have no: "\<not> startsWith (js ''### '') s" if "is_table_row s" for s
        using that table_row_not_heading [of s] by (simp add: is_table_row_def)
      from less.prems obtain nodes' where
        "for_loop lines (i + run_length is_table_row lines i) nodes' = Inr doc"
        "filter is_H3 nodes' = filter is_H3 nodes"
        by (simp only: for_loop_table [OF True 3] split: if_splits) auto
      with behind [of is_table_row nodes', OF 3] run_no_heading [of is_table_row i lines, OF no]
      show ?thesis by simp
    next
      case 4
      have no: "\<not> startsWith (js ''### '') s" if "is_unordered s" for s
        using that unordered_not_earlier [of s] by simp
      from less.prems obtain nodes' where
        "for_loop lines (i + run_length is_unordered lines i) nodes' = Inr doc"
        "filter is_H3 nodes' = filter is_H3 nodes"
        by (simp only: for_loop_unordered [OF True 4]) auto
      with behind [of is_unordered nodes', OF 4] run_no_heading [of is_unordered i lines, OF no]
      show ?thesis by simp
    next
      case 5
      have no: "\<not> startsWith (js ''### '') s" if "test_ordered s" for s
        using that ordered_not_earlier [of s] by simp
      from less.prems obtain nodes' where
        "for_loop lines (i + run_length test_ordered lines i) nodes' = Inr doc"
        "filter is_H3 nodes' = filter is_H3 nodes"
        by (simp only: for_loop_ordered [OF True 5]) auto
      with behind [of test_ordered nodes', OF 5] run_no_heading [of test_ordered i lines, OF no]
      show ?thesis by simp
    next
      case 6
      from less.prems obtain nodes' where
        "for_loop lines (i + 1) nodes' = Inr doc"
        "filter is_H3 nodes' = filter is_H3 nodes"
        by (simp only: for_loop_paragraph [OF True 6] split: if_splits) auto
      with next_line [of nodes'] 6(1) show ?thesis
        by (subst here) simp
    qed
  qed
qed

section \<open>Cells\<close>





section \<open>The result of the loop\<close>

text \<open>
  The loop only adds to its nodes: what it returns is the nodes it was given and then
  the nodes of the lines from its index on, and these are the nodes that the loop returns
  for those lines alone, from index 0 with no nodes.
\<close>

lemma for_loop_prefix: "\<exists>rest. \<forall>nodes. for_loop lines i nodes = Inr (nodes @ rest)"
proof (induction "length lines - i" arbitrary: i rule: less_induct)
  case less
  show ?case
  proof (cases "i < length lines")
    case False
    then have "\<forall>nodes. for_loop lines i nodes = Inr (nodes @ [])"
      by (simp add: for_loop_end)
    then show ?thesis by blast
  next
    case True
    let ?line = "trim (lines ! i)"
    have next_line: "\<exists>rest. \<forall>nodes. for_loop lines (i + 1) nodes = Inr (nodes @ rest)"
      using True by (intro less) simp
    have behind: "\<exists>rest. \<forall>nodes. for_loop lines (i + run_length test lines i) nodes = Inr (nodes @ rest)"
      if "test ?line" for test
      using True that by (intro less) (simp add: run_length_step)
    have extend: "\<exists>rest. \<forall>nodes. for_loop lines i nodes = Inr (nodes @ rest)"
      if "\<And>nodes. for_loop lines i nodes = for_loop lines j (nodes @ new)"
        and "\<exists>rest. \<forall>nodes. for_loop lines j nodes = Inr (nodes @ rest)" for j new
    proof -
      from that(2) obtain rest where "\<forall>nodes. for_loop lines j nodes = Inr (nodes @ rest)" ..
      with that(1) have "\<forall>nodes. for_loop lines i nodes = Inr (nodes @ (new @ rest))" by simp
      then show ?thesis ..
    qed
    consider "startsWith (js ''### '') ?line"
      | "\<not> startsWith (js ''### '') ?line" "startsWith (js ''## '') ?line"
      | "is_table_row ?line" | "is_unordered ?line" | "test_ordered ?line"
      | "\<not> startsWith (js ''### '') ?line" "\<not> startsWith (js ''## '') ?line"
        "\<not> is_table_row ?line" "\<not> is_unordered ?line" "\<not> test_ordered ?line"
      by blast
    then show ?thesis
    proof cases
      case 1
      show ?thesis by (rule extend [OF for_loop_h3 [OF True 1] next_line])
    next
      case 2
      show ?thesis by (rule extend [OF for_loop_h2 [OF True 2] next_line])
    next
      case 3
      have "for_loop lines i nodes = for_loop lines (i + run_length is_table_row lines i)
          (nodes @ (if 2 \<le> run_length is_table_row lines i
             then [Table (map (\<lambda>h. [Text h]) (cells (trim (lines ! i))))
                        (map (\<lambda>l. map renderInline (cells (trim l)))
                           (take (run_length is_table_row lines i - 2) (drop (i + 2) lines)))]
             else []))" for nodes
        by (simp add: for_loop_table [OF True 3])
      then show ?thesis by (rule extend [OF _ behind [of is_table_row, OF 3]])
    next
      case 4
      show ?thesis by (rule extend [OF for_loop_unordered [OF True 4] behind [of is_unordered, OF 4]])
    next
      case 5
      show ?thesis by (rule extend [OF for_loop_ordered [OF True 5] behind [of test_ordered, OF 5]])
    next
      case 6
      have "for_loop lines i nodes = for_loop lines (i + 1)
          (nodes @ (if trim (lines ! i) \<noteq> [] then [P (renderInline (trim (lines ! i)))] else []))"
        for nodes
        by (simp add: for_loop_paragraph [OF True 6])
      then show ?thesis by (rule extend [OF _ next_line])
    qed
  qed
qed


lemma run_length_shift:
  "run_length test (pre @ ls) (length pre + k) = run_length test ls k"
  by (simp add: run_length_def)

lemma for_loop_shift:
  "for_loop (pre @ ls) (length pre + k) nodes = for_loop ls k nodes"
proof (induction "length ls - k" arbitrary: k nodes rule: less_induct)
  case less
  let ?L = "pre @ ls"
  let ?j = "length pre + k"
  show ?case
  proof (cases "k < length ls")
    case False
    then show ?thesis by (simp add: for_loop_end)
  next
    case True
    then have j: "?j < length ?L" by simp
    have line: "?L ! ?j = ls ! k" by (simp add: nth_append)
    let ?line = "trim (ls ! k)"
    have next_line: "for_loop ?L (?j + 1) nodes' = for_loop ls (k + 1) nodes'" for nodes'
      using True less [of "k + 1" nodes'] by (simp add: add.assoc)
    have behind: "for_loop ?L (?j + run_length test ls k) nodes' =
        for_loop ls (k + run_length test ls k) nodes'"
      if "test ?line" for test nodes'
      using True that less [of "k + run_length test ls k" nodes']
      by (simp add: run_length_step add.assoc)
    have rest2: "drop (?j + 2) ?L = drop (k + 2) ls" by simp
    have items: "drop ?j ?L = drop k ls" by simp
    consider "startsWith (js ''### '') ?line"
      | "\<not> startsWith (js ''### '') ?line" "startsWith (js ''## '') ?line"
      | "is_table_row ?line" | "is_unordered ?line" | "test_ordered ?line"
      | "\<not> startsWith (js ''### '') ?line" "\<not> startsWith (js ''## '') ?line"
        "\<not> is_table_row ?line" "\<not> is_unordered ?line" "\<not> test_ordered ?line"
      by blast
    then show ?thesis
    proof cases
      case 1
      with j line have "for_loop ?L ?j nodes =
          for_loop ?L (?j + 1) (nodes @ [H3 [Text (substring 4 ?line)]])"
        using for_loop_h3 [of ?j ?L nodes] by simp
      also note next_line
      also from True 1 have "for_loop ls (k + 1) (nodes @ [H3 [Text (substring 4 ?line)]]) =
          for_loop ls k nodes"
        by (simp add: for_loop_h3)
      finally show ?thesis .
    next
      case 2
      with j line have "for_loop ?L ?j nodes =
          for_loop ?L (?j + 1) (nodes @ [H2 [Text (substring 3 ?line)]])"
        using for_loop_h2 [of ?j ?L nodes] by simp
      also note next_line
      also from True 2 have "for_loop ls (k + 1) (nodes @ [H2 [Text (substring 3 ?line)]]) =
          for_loop ls k nodes"
        by (simp add: for_loop_h2)
      finally show ?thesis .
    next
      case 3
      from j line 3 have "for_loop ?L ?j nodes = for_loop ?L (?j + run_length is_table_row ls k)
         (if 2 \<le> run_length is_table_row ls k
          then nodes @ [Table (map (\<lambda>h. [Text h]) (cells ?line))
                        (map (\<lambda>l. map renderInline (cells (trim l)))
                           (take (run_length is_table_row ls k - 2) (drop (k + 2) ls)))]
          else nodes)"
        using for_loop_table [of ?j ?L nodes]
        by (simp only: run_length_shift rest2)
      also note behind [of is_table_row, OF 3]
      also from True 3 have "for_loop ls (k + run_length is_table_row ls k)
         (if 2 \<le> run_length is_table_row ls k
          then nodes @ [Table (map (\<lambda>h. [Text h]) (cells ?line))
                        (map (\<lambda>l. map renderInline (cells (trim l)))
                           (take (run_length is_table_row ls k - 2) (drop (k + 2) ls)))]
          else nodes) = for_loop ls k nodes"
        by (simp only: for_loop_table)
      finally show ?thesis .
    next
      case 4
      from j line 4 have "for_loop ?L ?j nodes = for_loop ?L (?j + run_length is_unordered ls k)
         (nodes @ [UL (map (\<lambda>l. renderInline (substring 2 (trim l)))
                       (take (run_length is_unordered ls k) (drop k ls)))])"
        using for_loop_unordered [of ?j ?L nodes]
        by (simp only: run_length_shift items)
      also note behind [of is_unordered, OF 4]
      also from True 4 have "for_loop ls (k + run_length is_unordered ls k)
         (nodes @ [UL (map (\<lambda>l. renderInline (substring 2 (trim l)))
                       (take (run_length is_unordered ls k) (drop k ls)))]) = for_loop ls k nodes"
        by (simp only: for_loop_unordered)
      finally show ?thesis .
    next
      case 5
      from j line 5 have "for_loop ?L ?j nodes = for_loop ?L (?j + run_length test_ordered ls k)
         (nodes @ [OL (map (\<lambda>l. renderInline (replace_ordered (trim l)))
                       (take (run_length test_ordered ls k) (drop k ls)))])"
        using for_loop_ordered [of ?j ?L nodes]
        by (simp only: run_length_shift items)
      also note behind [of test_ordered, OF 5]
      also from True 5 have "for_loop ls (k + run_length test_ordered ls k)
         (nodes @ [OL (map (\<lambda>l. renderInline (replace_ordered (trim l)))
                       (take (run_length test_ordered ls k) (drop k ls)))]) = for_loop ls k nodes"
        by (simp only: for_loop_ordered)
      finally show ?thesis .
    next
      case 6
      from j line 6 have "for_loop ?L ?j nodes = for_loop ?L (?j + 1)
          (if ?line \<noteq> [] then nodes @ [P (renderInline ?line)] else nodes)"
        using for_loop_paragraph [of ?j ?L nodes] by simp
      also note next_line
      also have "for_loop ls (k + 1)
          (if ?line \<noteq> [] then nodes @ [P (renderInline ?line)] else nodes) = for_loop ls k nodes"
        by (rule for_loop_paragraph [OF True 6, symmetric])
      finally show ?thesis .
    qed
  qed
qed

lemma for_loop_drop: "for_loop lines i nodes = for_loop (drop i lines) 0 nodes"
proof (cases "i \<le> length lines")
  case True
  then have "length (take i lines) + 0 = i" by simp
  with for_loop_shift [of "take i lines" "drop i lines" 0 nodes] show ?thesis
    by simp
next
  case False
  then show ?thesis by (simp add: for_loop_end)
qed


lemma for_loop_rest:
  "\<exists>rest. for_loop (drop j lines) 0 [] = Inr rest \<and> (\<forall>nodes. for_loop lines j nodes = Inr (nodes @ rest))"
proof -
  from for_loop_prefix [of lines j] obtain rest
    where rest: "\<forall>nodes. for_loop lines j nodes = Inr (nodes @ rest)" ..
  then have "for_loop lines j [] = Inr rest" by simp
  then have "for_loop (drop j lines) 0 [] = Inr rest" by (simp only: for_loop_drop [of lines j])
  with rest show ?thesis by blast
qed

section \<open>Tables\<close>








text \<open>
  C10. A piece that is empty after trimming is removed from its row, so no row holds an
  empty cell. In the table that the loop returns for a run, each row is made of the
  pieces of its own line that are left, as many cells as there are such pieces, whatever
  the number of header cells: nothing pads a short row and nothing cuts a long one. Under
  a header of three cells the row \<^verbatim>\<open>| a |  | b |\<close> has the two cells \<open>a\<close> and
  \<open>b\<close>, the second moved into the place of the empty one; under a header of one
  cell the row \<^verbatim>\<open>| a | b | c |\<close> keeps its three cells.
\<close>

theorem empty_cells_deleted:
  "[] \<notin> set (cells r)
   \<and> (i < length lines \<and> is_table_row (trim (lines ! i))
        \<and> 2 \<le> run_length is_table_row lines i \<longrightarrow>
        (\<exists>rows rest.
            for_loop lines i nodes =
              Inr (nodes @ Table (map (\<lambda>h. [Text h]) (cells (trim (lines ! i)))) rows # rest)
          \<and> rows = map (\<lambda>l. map renderInline
                              (map trim (filter (\<lambda>c. trim c \<noteq> [])
                                 (split_on (of_char CHR ''|'') (trim l)))))
                     (take (run_length is_table_row lines i - 2) (drop (i + 2) lines))
          \<and> map length rows =
              map (\<lambda>l. length (filter (\<lambda>c. trim c \<noteq> [])
                                  (split_on (of_char CHR ''|'') (trim l))))
                (take (run_length is_table_row lines i - 2) (drop (i + 2) lines))))
   \<and> MarkdownRenderer (js ''| x | y | z |'' @ LF # js ''|---|---|---|'' @ LF # js ''| a |  | b |'')
       = Inr [Table [[Text (js ''x'')], [Text (js ''y'')], [Text (js ''z'')]]
                [[[Text (js ''a'')], [Text (js ''b'')]]]]
   \<and> MarkdownRenderer (js ''| x |'' @ LF # js ''|---|'' @ LF # js ''| a | b | c |'')
       = Inr [Table [[Text (js ''x'')]]
                [[[Text (js ''a'')], [Text (js ''b'')], [Text (js ''c'')]]]]"
proof (intro conjI impI)
  show "[] \<notin> set (cells r)" by (auto simp: cells_def)
  show "MarkdownRenderer (js ''| x | y | z |'' @ LF # js ''|---|---|---|'' @ LF # js ''| a |  | b |'')
       = Inr [Table [[Text (js ''x'')], [Text (js ''y'')], [Text (js ''z'')]]
                [[[Text (js ''a'')], [Text (js ''b'')]]]]"
    by code_simp
  show "MarkdownRenderer (js ''| x |'' @ LF # js ''|---|'' @ LF # js ''| a | b | c |'')
       = Inr [Table [[Text (js ''x'')]]
                [[[Text (js ''a'')], [Text (js ''b'')], [Text (js ''c'')]]]]"
    by code_simp
next
  assume h: "i < length lines \<and> is_table_row (trim (lines ! i))
        \<and> 2 \<le> run_length is_table_row lines i"
  let ?n = "run_length is_table_row lines i"
  let ?pieces = "\<lambda>l. filter (\<lambda>c. trim c \<noteq> []) (split_on (of_char CHR ''|'') (trim l))"
  let ?rows = "map (\<lambda>l. map renderInline (map trim (?pieces l))) (take (?n - 2) (drop (i + 2) lines))"
  from for_loop_prefix [of lines "i + ?n"] obtain rest
    where cont: "\<And>nodes. for_loop lines (i + ?n) nodes = Inr (nodes @ rest)"
    by blast
  from h have "for_loop lines i nodes =
      Inr (nodes @ Table (map (\<lambda>h. [Text h]) (cells (trim (lines ! i)))) ?rows # rest)"
    by (simp add: for_loop_table cont cells_def)
  moreover have "map length ?rows = map (\<lambda>l. length (?pieces l)) (take (?n - 2) (drop (i + 2) lines))"
    by simp
  ultimately show "\<exists>rows rest.
            for_loop lines i nodes =
              Inr (nodes @ Table (map (\<lambda>h. [Text h]) (cells (trim (lines ! i)))) rows # rest)
          \<and> rows = ?rows
          \<and> map length rows = map (\<lambda>l. length (?pieces l)) (take (?n - 2) (drop (i + 2) lines))"
    by blast
qed

text \<open>The theorem at a header of one cell over a row of three cells and a row of one.\<close>

theorem empty_cells_deleted_witness:
  "0 < length [js ''| x |'', js ''|---|'', js ''| a | b | c |'', js ''| d |  |'']
   \<and> is_table_row (trim ([js ''| x |'', js ''|---|'', js ''| a | b | c |'', js ''| d |  |''] ! 0))
   \<and> 2 \<le> run_length is_table_row [js ''| x |'', js ''|---|'', js ''| a | b | c |'', js ''| d |  |''] 0
   \<and> (\<exists>rows rest.
        for_loop [js ''| x |'', js ''|---|'', js ''| a | b | c |'', js ''| d |  |''] 0 []
          = Inr ([] @ Table [[Text (js ''x'')]] rows # rest)
        \<and> rows = [[[Text (js ''a'')], [Text (js ''b'')], [Text (js ''c'')]], [[Text (js ''d'')]]]
        \<and> map length rows = [3, 1])"
proof -
  let ?L = "[js ''| x |'', js ''|---|'', js ''| a | b | c |'', js ''| d |  |'']"
  let ?pieces = "\<lambda>l. filter (\<lambda>c. trim c \<noteq> []) (split_on (of_char CHR ''|'') (trim l))"
  have h: "0 < length ?L \<and> is_table_row (trim (?L ! 0)) \<and> 2 \<le> run_length is_table_row ?L 0"
    by code_simp
  with empty_cells_deleted [of _ 0 ?L "[]"] obtain rows rest
    where d: "for_loop ?L 0 [] =
        Inr ([] @ Table (map (\<lambda>h. [Text h]) (cells (trim (?L ! 0)))) rows # rest)"
      and r: "rows = map (\<lambda>l. map renderInline (map trim (?pieces l)))
                     (take (run_length is_table_row ?L 0 - 2) (drop (0 + 2) ?L))"
      and l: "map length rows = map (\<lambda>l. length (?pieces l))
                (take (run_length is_table_row ?L 0 - 2) (drop (0 + 2) ?L))"
    by blast
  have "map (\<lambda>h. [Text h]) (cells (trim (?L ! 0))) = [[Text (js ''x'')]]" by code_simp
  with d have 1: "for_loop ?L 0 [] = Inr ([] @ Table [[Text (js ''x'')]] rows # rest)"
    by (simp only:)
  have "map (\<lambda>l. map renderInline (map trim (?pieces l)))
                     (take (run_length is_table_row ?L 0 - 2) (drop (0 + 2) ?L))
      = [[[Text (js ''a'')], [Text (js ''b'')], [Text (js ''c'')]], [[Text (js ''d'')]]]"
    by code_simp
  with r have 2: "rows = [[[Text (js ''a'')], [Text (js ''b'')], [Text (js ''c'')]], [[Text (js ''d'')]]]"
    by (simp only:)
  have "map (\<lambda>l. length (?pieces l))
                (take (run_length is_table_row ?L 0 - 2) (drop (0 + 2) ?L)) = [3, 1]"
    by code_simp
  with l have 3: "map length rows = [3, 1]" by (simp only:)
  have ex: "\<exists>rows rest.
        for_loop ?L 0 [] = Inr ([] @ Table [[Text (js ''x'')]] rows # rest)
        \<and> rows = [[[Text (js ''a'')], [Text (js ''b'')], [Text (js ''c'')]], [[Text (js ''d'')]]]
        \<and> map length rows = [3, 1]"
  proof (intro exI conjI)
    show "for_loop ?L 0 [] = Inr ([] @ Table [[Text (js ''x'')]] rows # rest)" by (rule 1)
    show "rows = [[[Text (js ''a'')], [Text (js ''b'')], [Text (js ''c'')]], [[Text (js ''d'')]]]"
      by (rule 2)
    show "map length rows = [3, 1]" by (rule 3)
  qed
  from h have a: "0 < length ?L" and b: "is_table_row (trim (?L ! 0))"
    and c: "2 \<le> run_length is_table_row ?L 0"
    by blast+
  show ?thesis by (intro conjI a b c ex)
qed

section \<open>Grouping runs\<close>

text \<open>
  C3. Each inner loop moves the index by exactly the length \<open>N\<close> of the run it
  consumes, and pushes one item per line of the run. A line at the index where it stops
  fails the test of the run. In the outer loop, the step back and the step forward of the
  loop header cancel: what the loop returns at a run is the nodes it had, then the node
  of the run (for a table of fewer than 2 lines none), then the nodes that the loop
  returns for the lines from index \<open>i + N\<close> on, so the first line behind the run is
  classified like the first line of an input. This holds for a table, an unordered and an
  ordered list alike. The input \<^verbatim>\<open>* a\n* b\nplain\<close> gives a list of two items and
  then a paragraph.
\<close>

theorem grouping_run_advances_by_its_length:
  "while_run test item lines i acc =
     Inr (i + run_length test lines i,
          acc @ map (\<lambda>l. item (trim l)) (take (run_length test lines i) (drop i lines)))
   \<and> (i + run_length test lines i < length lines
        \<longrightarrow> \<not> test (trim (lines ! (i + run_length test lines i))))
   \<and> (i < length lines \<and> is_table_row (trim (lines ! i)) \<longrightarrow>
        (\<exists>rest. for_loop (drop (i + run_length is_table_row lines i) lines) 0 [] = Inr rest
          \<and> for_loop lines i nodes =
              Inr (nodes @
                   (if 2 \<le> run_length is_table_row lines i
                    then [Table (map (\<lambda>h. [Text h]) (cells (trim (lines ! i))))
                            (map (\<lambda>l. map renderInline (cells (trim l)))
                               (take (run_length is_table_row lines i - 2) (drop (i + 2) lines)))]
                    else [])
                   @ rest)))
   \<and> (i < length lines \<and> is_unordered (trim (lines ! i)) \<longrightarrow>
        (\<exists>rest. for_loop (drop (i + run_length is_unordered lines i) lines) 0 [] = Inr rest
          \<and> for_loop lines i nodes =
              Inr (nodes @ UL (map (\<lambda>l. renderInline (substring 2 (trim l)))
                                (take (run_length is_unordered lines i) (drop i lines)))
                     # rest)))
   \<and> (i < length lines \<and> test_ordered (trim (lines ! i)) \<longrightarrow>
        (\<exists>rest. for_loop (drop (i + run_length test_ordered lines i) lines) 0 [] = Inr rest
          \<and> for_loop lines i nodes =
              Inr (nodes @ OL (map (\<lambda>l. renderInline (replace_ordered (trim l)))
                                (take (run_length test_ordered lines i) (drop i lines)))
                     # rest)))
   \<and> MarkdownRenderer (js ''* a'' @ LF # js ''* b'' @ LF # js ''plain'')
       = Inr [UL [[Text (js ''a'')], [Text (js ''b'')]], P [Text (js ''plain'')]]"
proof (intro conjI impI)
  show "while_run test item lines i acc =
     Inr (i + run_length test lines i,
          acc @ map (\<lambda>l. item (trim l)) (take (run_length test lines i) (drop i lines)))"
    by (rule while_run_eq)
  show "\<not> test (trim (lines ! (i + run_length test lines i)))"
    if "i + run_length test lines i < length lines"
    using that by (rule run_length_next)
  show "MarkdownRenderer (js ''* a'' @ LF # js ''* b'' @ LF # js ''plain'')
       = Inr [UL [[Text (js ''a'')], [Text (js ''b'')]], P [Text (js ''plain'')]]"
    by code_simp
next
  assume h: "i < length lines \<and> is_table_row (trim (lines ! i))"
  let ?n = "run_length is_table_row lines i"
  from for_loop_rest [of "i + ?n" lines] obtain rest
    where rest: "for_loop (drop (i + ?n) lines) 0 [] = Inr rest"
      and cont: "\<And>nodes. for_loop lines (i + ?n) nodes = Inr (nodes @ rest)"
    by blast
  from h have "for_loop lines i nodes =
      Inr (nodes @
           (if 2 \<le> ?n
            then [Table (map (\<lambda>h. [Text h]) (cells (trim (lines ! i))))
                    (map (\<lambda>l. map renderInline (cells (trim l)))
                       (take (?n - 2) (drop (i + 2) lines)))]
            else [])
           @ rest)"
    by (simp add: for_loop_table cont)
  with rest show "\<exists>rest. for_loop (drop (i + ?n) lines) 0 [] = Inr rest
          \<and> for_loop lines i nodes =
              Inr (nodes @
                   (if 2 \<le> ?n
                    then [Table (map (\<lambda>h. [Text h]) (cells (trim (lines ! i))))
                            (map (\<lambda>l. map renderInline (cells (trim l)))
                               (take (?n - 2) (drop (i + 2) lines)))]
                    else [])
                   @ rest)"
    by blast
next
  assume h: "i < length lines \<and> is_unordered (trim (lines ! i))"
  let ?n = "run_length is_unordered lines i"
  from for_loop_rest [of "i + ?n" lines] obtain rest
    where rest: "for_loop (drop (i + ?n) lines) 0 [] = Inr rest"
      and cont: "\<And>nodes. for_loop lines (i + ?n) nodes = Inr (nodes @ rest)"
    by blast
  from h have "for_loop lines i nodes =
      Inr (nodes @ UL (map (\<lambda>l. renderInline (substring 2 (trim l)))
                        (take ?n (drop i lines))) # rest)"
    by (simp add: for_loop_unordered cont)
  with rest show "\<exists>rest. for_loop (drop (i + ?n) lines) 0 [] = Inr rest
          \<and> for_loop lines i nodes =
              Inr (nodes @ UL (map (\<lambda>l. renderInline (substring 2 (trim l)))
                                (take ?n (drop i lines))) # rest)"
    by blast
next
  assume h: "i < length lines \<and> test_ordered (trim (lines ! i))"
  let ?n = "run_length test_ordered lines i"
  from for_loop_rest [of "i + ?n" lines] obtain rest
    where rest: "for_loop (drop (i + ?n) lines) 0 [] = Inr rest"
      and cont: "\<And>nodes. for_loop lines (i + ?n) nodes = Inr (nodes @ rest)"
    by blast
  from h have "for_loop lines i nodes =
      Inr (nodes @ OL (map (\<lambda>l. renderInline (replace_ordered (trim l)))
                        (take ?n (drop i lines))) # rest)"
    by (simp add: for_loop_ordered cont)
  with rest show "\<exists>rest. for_loop (drop (i + ?n) lines) 0 [] = Inr rest
          \<and> for_loop lines i nodes =
              Inr (nodes @ OL (map (\<lambda>l. renderInline (replace_ordered (trim l)))
                                (take ?n (drop i lines))) # rest)"
    by blast
qed

text \<open>
  The theorem at a list of two items between two paragraphs, at an ordered item followed
  by a line that is none, at a table followed by a list item, and at a lone table row
  followed by a heading.
\<close>

theorem grouping_run_advances_by_its_length_witness:
  "for_loop [js ''intro'', js ''* a'', js ''* b'', js ''plain''] 1 [P [Text (js ''intro'')]]
     = Inr [P [Text (js ''intro'')], UL [[Text (js ''a'')], [Text (js ''b'')]], P [Text (js ''plain'')]]
   \<and> run_length is_unordered [js ''intro'', js ''* a'', js ''* b'', js ''plain''] 1 = 2
   \<and> \<not> is_unordered (trim ([js ''intro'', js ''* a'', js ''* b'', js ''plain''] ! 3))
   \<and> for_loop [js ''7. x'', js ''8) y''] 0 []
     = Inr [OL [[Text (js ''x'')]], P [Text (js ''8) y'')]]
   \<and> for_loop [js ''| h |'', js ''|-|'', js ''| c |'', js ''- tail''] 0 []
     = Inr [Table [[Text (js ''h'')]] [[[Text (js ''c'')]]], UL [[Text (js ''tail'')]]]
   \<and> for_loop [js ''| lone |'', js ''## next''] 0 []
     = Inr [H2 [Text (js ''next'')]]"
proof -
  let ?U = "[js ''intro'', js ''* a'', js ''* b'', js ''plain'']"
  let ?O = "[js ''7. x'', js ''8) y'']"
  let ?T = "[js ''| h |'', js ''|-|'', js ''| c |'', js ''- tail'']"
  let ?S = "[js ''| lone |'', js ''## next'']"
  let ?intro = "[P [Text (js ''intro'')]]"
  note inst_u = grouping_run_advances_by_its_length [of is_unordered "substring 2" ?U 1 "[]" ?intro]
  note inst_o = grouping_run_advances_by_its_length [of test_ordered replace_ordered ?O 0 "[]" "[]"]
  note inst_t = grouping_run_advances_by_its_length [of is_table_row "\<lambda>l. l" ?T 0 "[]" "[]"]
  note inst_s = grouping_run_advances_by_its_length [of is_table_row "\<lambda>l. l" ?S 0 "[]" "[]"]
  have "1 < length ?U \<and> is_unordered (trim (?U ! 1))" by code_simp
  with inst_u obtain rest_u
    where "for_loop (drop (1 + run_length is_unordered ?U 1) ?U) 0 [] = Inr rest_u"
      and du: "for_loop ?U 1 ?intro =
        Inr (?intro @ UL (map (\<lambda>l. renderInline (substring 2 (trim l)))
                           (take (run_length is_unordered ?U 1) (drop 1 ?U))) # rest_u)"
    by blast
  moreover have "for_loop (drop (1 + run_length is_unordered ?U 1) ?U) 0 [] = Inr [P [Text (js ''plain'')]]"
    by code_simp
  ultimately have ru: "rest_u = [P [Text (js ''plain'')]]" by (simp only: sum.inject)
  have "?intro @ UL (map (\<lambda>l. renderInline (substring 2 (trim l)))
                           (take (run_length is_unordered ?U 1) (drop 1 ?U))) # [P [Text (js ''plain'')]]
      = [P [Text (js ''intro'')], UL [[Text (js ''a'')], [Text (js ''b'')]], P [Text (js ''plain'')]]"
    by code_simp
  with du have 1: "for_loop ?U 1 ?intro =
      Inr [P [Text (js ''intro'')], UL [[Text (js ''a'')], [Text (js ''b'')]], P [Text (js ''plain'')]]"
    by (simp only: ru)
  have n: "run_length is_unordered ?U 1 = 2" by code_simp
  have "1 + run_length is_unordered ?U 1 < length ?U" by code_simp
  with inst_u have "\<not> is_unordered (trim (?U ! (1 + run_length is_unordered ?U 1)))"
    by blast
  moreover have "1 + run_length is_unordered ?U 1 = 3" by code_simp
  ultimately have 2: "\<not> is_unordered (trim (?U ! 3))" by simp
  have "0 < length ?O \<and> test_ordered (trim (?O ! 0))" by code_simp
  with inst_o obtain rest_o
    where "for_loop (drop (0 + run_length test_ordered ?O 0) ?O) 0 [] = Inr rest_o"
      and d_o: "for_loop ?O 0 [] =
        Inr ([] @ OL (map (\<lambda>l. renderInline (replace_ordered (trim l)))
                           (take (run_length test_ordered ?O 0) (drop 0 ?O))) # rest_o)"
    by blast
  moreover have "for_loop (drop (0 + run_length test_ordered ?O 0) ?O) 0 [] = Inr [P [Text (js ''8) y'')]]"
    by code_simp
  ultimately have ro: "rest_o = [P [Text (js ''8) y'')]]" by (simp only: sum.inject)
  have "[] @ OL (map (\<lambda>l. renderInline (replace_ordered (trim l)))
                           (take (run_length test_ordered ?O 0) (drop 0 ?O))) # [P [Text (js ''8) y'')]]
      = [OL [[Text (js ''x'')]], P [Text (js ''8) y'')]]"
    by code_simp
  with d_o have 3: "for_loop ?O 0 [] = Inr [OL [[Text (js ''x'')]], P [Text (js ''8) y'')]]"
    by (simp only: ro)
  have "0 < length ?T \<and> is_table_row (trim (?T ! 0))" by code_simp
  with inst_t obtain rest_t
    where "for_loop (drop (0 + run_length is_table_row ?T 0) ?T) 0 [] = Inr rest_t"
      and dt: "for_loop ?T 0 [] =
        Inr ([] @ (if 2 \<le> run_length is_table_row ?T 0
                    then [Table (map (\<lambda>h. [Text h]) (cells (trim (?T ! 0))))
                            (map (\<lambda>l. map renderInline (cells (trim l)))
                               (take (run_length is_table_row ?T 0 - 2) (drop (0 + 2) ?T)))]
                    else []) @ rest_t)"
    by blast
  moreover have "for_loop (drop (0 + run_length is_table_row ?T 0) ?T) 0 [] = Inr [UL [[Text (js ''tail'')]]]"
    by code_simp
  ultimately have rt: "rest_t = [UL [[Text (js ''tail'')]]]" by (simp only: sum.inject)
  have "[] @ (if 2 \<le> run_length is_table_row ?T 0
                    then [Table (map (\<lambda>h. [Text h]) (cells (trim (?T ! 0))))
                            (map (\<lambda>l. map renderInline (cells (trim l)))
                               (take (run_length is_table_row ?T 0 - 2) (drop (0 + 2) ?T)))]
                    else []) @ [UL [[Text (js ''tail'')]]]
      = [Table [[Text (js ''h'')]] [[[Text (js ''c'')]]], UL [[Text (js ''tail'')]]]"
    by code_simp
  with dt have 4: "for_loop ?T 0 [] =
      Inr [Table [[Text (js ''h'')]] [[[Text (js ''c'')]]], UL [[Text (js ''tail'')]]]"
    by (simp only: rt)
  have "0 < length ?S \<and> is_table_row (trim (?S ! 0))" by code_simp
  with inst_s obtain rest_s
    where "for_loop (drop (0 + run_length is_table_row ?S 0) ?S) 0 [] = Inr rest_s"
      and ds: "for_loop ?S 0 [] =
        Inr ([] @ (if 2 \<le> run_length is_table_row ?S 0
                    then [Table (map (\<lambda>h. [Text h]) (cells (trim (?S ! 0))))
                            (map (\<lambda>l. map renderInline (cells (trim l)))
                               (take (run_length is_table_row ?S 0 - 2) (drop (0 + 2) ?S)))]
                    else []) @ rest_s)"
    by blast
  moreover have "for_loop (drop (0 + run_length is_table_row ?S 0) ?S) 0 [] = Inr [H2 [Text (js ''next'')]]"
    by code_simp
  ultimately have rs: "rest_s = [H2 [Text (js ''next'')]]" by (simp only: sum.inject)
  have "[] @ (if 2 \<le> run_length is_table_row ?S 0
                    then [Table (map (\<lambda>h. [Text h]) (cells (trim (?S ! 0))))
                            (map (\<lambda>l. map renderInline (cells (trim l)))
                               (take (run_length is_table_row ?S 0 - 2) (drop (0 + 2) ?S)))]
                    else []) @ [H2 [Text (js ''next'')]]
      = [H2 [Text (js ''next'')]]"
    by code_simp
  with ds have 5: "for_loop ?S 0 [] = Inr [H2 [Text (js ''next'')]]"
    by (simp only: rs)
  from 1 n 2 3 4 5 show ?thesis by blast
qed

section \<open>Headings\<close>

text \<open>
  C4, as the code has it. At a line whose trimmed form starts with \<^verbatim>\<open>### \<close> the loop
  pushes one \<^verbatim>\<open><h3>\<close> and moves to the next line; the \<^verbatim>\<open><h3>\<close> nodes of a
  result are those of its \<^verbatim>\<open>###\<close> lines, one for each, in their order. The child of
  the heading is the rest of the trimmed line behind the four code units of the prefix,
  as one plain span: a heading does not go through \<open>renderInline\<close>, so
  \<^verbatim>\<open>**\<close> in a heading stays as it is. \<^verbatim>\<open>### Conditions Treated\<close> gives the one
  heading with the plain span \<^verbatim>\<open>Conditions Treated\<close>.
\<close>

theorem heading_is_literal:
  "(i < length lines \<and> startsWith (js ''### '') (trim (lines ! i)) \<longrightarrow>
      for_loop lines i nodes =
        for_loop lines (i + 1) (nodes @ [H3 [Text (substring 4 (trim (lines ! i)))]]))
   \<and> (\<exists>doc. MarkdownRenderer content = Inr doc \<and>
        filter is_H3 doc =
          map (\<lambda>l. H3 [Text (substring 4 (trim l))])
            (filter (\<lambda>l. startsWith (js ''### '') (trim l)) (split_on LF content)))
   \<and> MarkdownRenderer (js ''### Conditions Treated'') = Inr [H3 [Text (js ''Conditions Treated'')]]"
proof (intro conjI impI)
  show "MarkdownRenderer (js ''### Conditions Treated'') = Inr [H3 [Text (js ''Conditions Treated'')]]"
    by code_simp
  obtain doc where doc: "for_loop (split_on LF content) 0 [] = Inr doc"
    using for_loop_total by blast
  from for_loop_h3_nodes [OF doc] doc
  show "\<exists>doc. MarkdownRenderer content = Inr doc \<and>
        filter is_H3 doc =
          map (\<lambda>l. H3 [Text (substring 4 (trim l))])
            (filter (\<lambda>l. startsWith (js ''### '') (trim l)) (split_on LF content))"
    by (simp add: MarkdownRenderer_def)
qed (simp add: for_loop_h3)

text \<open>The theorem at an indented heading with emphasis marks, behind a paragraph.\<close>

theorem heading_is_literal_witness:
  "1 < length [js ''text'', js ''  ### **Dosage** notes  '']
   \<and> startsWith (js ''### '') (trim ([js ''text'', js ''  ### **Dosage** notes  ''] ! 1))
   \<and> for_loop [js ''text'', js ''  ### **Dosage** notes  ''] 1 [P [Text (js ''text'')]]
       = Inr [P [Text (js ''text'')], H3 [Text (js ''**Dosage** notes'')]]"
proof -
  let ?L = "[js ''text'', js ''  ### **Dosage** notes  '']"
  have h: "1 < length ?L \<and> startsWith (js ''### '') (trim (?L ! 1))" by code_simp
  with heading_is_literal [of 1 ?L "[P [Text (js ''text'')]]"]
  have "for_loop ?L 1 [P [Text (js ''text'')]] =
      for_loop ?L (1 + 1) ([P [Text (js ''text'')]] @ [H3 [Text (substring 4 (trim (?L ! 1)))]])"
    by blast
  also have "\<dots> = Inr [P [Text (js ''text'')], H3 [Text (js ''**Dosage** notes'')]]"
    by code_simp
  finally show ?thesis using h by blast
qed

text \<open>
  The heading \<^verbatim>\<open>### **Dosage**\<close> keeps its marks, where \<open>renderInline\<close> would
  have made an emphasised span of the word.
\<close>

theorem heading_formatted_counterexample:
  "MarkdownRenderer (js ''### **Dosage**'') = Inr [H3 [Text (js ''**Dosage**'')]]
   \<and> renderInline (js ''**Dosage**'') = [Text [], Strong (js ''Dosage''), Text []]
   \<and> MarkdownRenderer (js ''### **Dosage**'') \<noteq> Inr [H3 (renderInline (js ''**Dosage**''))]"
  by code_simp

section \<open>Spans\<close>

text \<open>
  C5, as the code has it. Where the text has a leftmost match at position \<open>q\<close>, of
  \<open>n\<close> code units, the spans are: the text before the match as a plain span (the
  empty string too, when the match is at the start), the text between the two marks of
  the match as an emphasised span, and then the spans of the text behind the match. A
  text with no match that does not both start and end with \<^verbatim>\<open>**\<close> is one plain
  span. So \<^verbatim>\<open>**Warning**: drowsiness\<close> gives three spans, the first of them the
  empty plain span, and not two.
\<close>

theorem emphasis_split:
  "(find_bold text = Some (q, n) \<longrightarrow>
      renderInline text =
        Text (take q text) # Strong (take (n - 4) (drop (q + 2) text))
          # renderInline (drop (q + n) text))
   \<and> (find_bold text = None \<and> \<not> (startsWith (js ''**'') text \<and> endsWith (js ''**'') text) \<longrightarrow>
      renderInline text = [Text text])
   \<and> renderInline (js ''**Warning**: drowsiness'')
       = [Text [], Strong (js ''Warning''), Text (js '': drowsiness'')]"
proof (intro conjI impI)
  show "renderInline (js ''**Warning**: drowsiness'')
       = [Text [], Strong (js ''Warning''), Text (js '': drowsiness'')]"
    by code_simp
  show "renderInline text = [Text text]"
    if "find_bold text = None \<and> \<not> (startsWith (js ''**'') text \<and> endsWith (js ''**'') text)"
    using that by (simp add: renderInline_no_match)
qed (rule renderInline_match)

text \<open>The theorem at a text with two matches, and at one with a single stray mark.\<close>

theorem emphasis_split_witness:
  "find_bold (js ''take **one** or **two** daily'') = Some (5, 7)
   \<and> renderInline (js ''take **one** or **two** daily'')
       = [Text (js ''take ''), Strong (js ''one''), Text (js '' or ''), Strong (js ''two''),
          Text (js '' daily'')]
   \<and> find_bold (js ''a ** b'') = None
   \<and> \<not> (startsWith (js ''**'') (js ''a ** b'') \<and> endsWith (js ''**'') (js ''a ** b''))
   \<and> renderInline (js ''a ** b'') = [Text (js ''a ** b'')]"
proof -
  let ?t = "js ''take **one** or **two** daily''"
  have f: "find_bold ?t = Some (5, 7)" by code_simp
  with emphasis_split [of ?t 5 7]
  have "renderInline ?t = Text (take 5 ?t) # Strong (take (7 - 4) (drop (5 + 2) ?t))
          # renderInline (drop (5 + 7) ?t)"
    by blast
  also have "\<dots> = [Text (js ''take ''), Strong (js ''one''), Text (js '' or ''), Strong (js ''two''),
          Text (js '' daily'')]"
    by code_simp
  finally have 1: "renderInline ?t = [Text (js ''take ''), Strong (js ''one''), Text (js '' or ''),
      Strong (js ''two''), Text (js '' daily'')]" .
  have g: "find_bold (js ''a ** b'') = None
      \<and> \<not> (startsWith (js ''**'') (js ''a ** b'') \<and> endsWith (js ''**'') (js ''a ** b''))"
    by code_simp
  with emphasis_split [of "js ''a ** b''"]
  have 2: "renderInline (js ''a ** b'') = [Text (js ''a ** b'')]"
    by blast
  from f 1 g 2 show ?thesis by blast
qed

text \<open>The two spans of the claim are not what \<open>renderInline\<close> returns.\<close>

theorem emphasis_split_counterexample:
  "renderInline (js ''**Warning**: drowsiness'')
     \<noteq> [Strong (js ''Warning''), Text (js '': drowsiness'')]"
  by code_simp

text \<open>
  C6. The text \<^verbatim>\<open>**\<close> holds one mark and no pair, and the regular expression does
  not match it. Still the test on the part, which asks only that it starts and ends with
  \<^verbatim>\<open>**\<close>, takes the mark for a match: the result is an emphasised span of the empty
  string, and the two asterisks are lost instead of shown as plain text. A line that is
  \<^verbatim>\<open>**\<close> alone reaches \<open>renderInline\<close> as a paragraph.
\<close>

theorem unbalanced_delimiter_lost:
  "find_bold (js ''**'') = None
   \<and> renderInline (js ''**'') = [Strong []]
   \<and> renderInline (js ''**'') \<noteq> [Text (js ''**'')]
   \<and> MarkdownRenderer (js ''**'') = Inr [P [Strong []]]"
  by code_simp

text \<open>
  C9. A text with no match that starts and ends with \<^verbatim>\<open>**\<close> is one emphasised span:
  the text without its first two and its last two code units, which is
  \<^verbatim>\<open>slice(2, -2)\<close>. For \<^verbatim>\<open>**\<close> and \<^verbatim>\<open>***\<close>, where the start and the end
  overlap, that span is empty.
\<close>

theorem delimiters_only_emphasized:
  "(find_bold text = None \<and> startsWith (js ''**'') text \<and> endsWith (js ''**'') text \<longrightarrow>
      renderInline text = [Strong (slice_str 2 (- 2) text)])
   \<and> renderInline (js ''**'') = [Strong []]
   \<and> renderInline (js ''***'') = [Strong []]"
proof (intro conjI impI)
  show "renderInline text = [Strong (slice_str 2 (- 2) text)]"
    if "find_bold text = None \<and> startsWith (js ''**'') text \<and> endsWith (js ''**'') text"
    using that by (simp add: renderInline_no_match)
qed code_simp+

text \<open>The theorem at \<^verbatim>\<open>***\<close>.\<close>

theorem delimiters_only_emphasized_witness:
  "find_bold (js ''***'') = None \<and> startsWith (js ''**'') (js ''***'')
   \<and> endsWith (js ''**'') (js ''***'')
   \<and> slice_str 2 (- 2) (js ''***'') = []
   \<and> renderInline (js ''***'') = [Strong (slice_str 2 (- 2) (js ''***''))]"
proof -
  have h: "find_bold (js ''***'') = None \<and> startsWith (js ''**'') (js ''***'')
      \<and> endsWith (js ''**'') (js ''***'')"
    by code_simp
  with delimiters_only_emphasized [of "js ''***''"]
  have "renderInline (js ''***'') = [Strong (slice_str 2 (- 2) (js ''***''))]"
    by blast
  moreover have "slice_str 2 (- 2) (js ''***'') = []" by code_simp
  ultimately show ?thesis using h by blast
qed

section \<open>Totality\<close>

text \<open>
  C8. \<open>MarkdownRenderer\<close> returns a list of nodes for every string and never fails:
  no read of \<open>lines\<close> or of \<open>tableRows\<close> is out of range. For the empty string
  the list is empty. The loops end because each move goes forward: an inner loop that is
  entered at a line passing its test stops at a later index, inside the array or at its
  end.
\<close>

theorem MarkdownRenderer_total:
  "(\<exists>doc. MarkdownRenderer content = Inr doc)
   \<and> MarkdownRenderer [] = Inr []
   \<and> (i < length lines \<and> test (trim (lines ! i)) \<longrightarrow>
        (\<exists>j items. while_run test item lines i acc = Inr (j, items) \<and> i < j \<and> j \<le> length lines))"
proof (intro conjI impI)
  show "\<exists>doc. MarkdownRenderer content = Inr doc"
    unfolding MarkdownRenderer_def by (rule for_loop_total)
  show "MarkdownRenderer [] = Inr []" by code_simp
  assume h: "i < length lines \<and> test (trim (lines ! i))"
  then have "0 < run_length test lines i"
    by (simp add: run_length_step)
  moreover from h have "i + run_length test lines i \<le> length lines"
    by (simp add: run_length_bound)
  ultimately show "\<exists>j items. while_run test item lines i acc = Inr (j, items) \<and> i < j \<and> j \<le> length lines"
    by (simp add: while_run_eq)
qed

text \<open>The theorem at an ordered list of two items.\<close>

theorem MarkdownRenderer_total_witness:
  "0 < length [js ''1. first'', js ''2. second'']
   \<and> test_ordered (trim ([js ''1. first'', js ''2. second''] ! 0))
   \<and> (\<exists>j items. while_run test_ordered replace_ordered [js ''1. first'', js ''2. second''] 0 []
          = Inr (j, items) \<and> 0 < j \<and> j \<le> length [js ''1. first'', js ''2. second''])"
proof -
  let ?L = "[js ''1. first'', js ''2. second'']"
  have h: "0 < length ?L \<and> test_ordered (trim (?L ! 0))" by code_simp
  with MarkdownRenderer_total [of "[]" 0 ?L test_ordered replace_ordered "[]"]
  show ?thesis by blast
qed

end
